theory Spec2Isabelle
  imports Main "HOL-Library.Multiset" "HOL-Library.Sublist"
begin

section \<open>Disk scheduling: FCFS, SSTF, SCAN and C-SCAN of \<^verbatim>\<open>app.py\<close>\<close>

text \<open>
  Cylinder numbers, the head position, the disk size and the seek totals are Python
  integers, hence \<open>int\<close>. A request queue is a Python list of integers, hence
  \<open>int list\<close>. The direction is the string handed over by the caller; the code tests
  \<^verbatim>\<open>direction == 'left'\<close> and sends every other string to the \<^verbatim>\<open>else\<close> branch.
  The source's variables \<^verbatim>\<open>total\<close> and \<^verbatim>\<open>curr\<close> are written \<open>tot\<close> and \<open>cur\<close>
  here, since HOL has constants of those names.
\<close>

subsection \<open>FCFS (lines 9-12)\<close>

text \<open>
  \<^verbatim>\<open>
  def fcfs(requests, head):
      order = requests.copy()
      distance = sum(abs(order[i] - (head if i == 0 else order[i - 1]))
                     for i in range(len(order)))
      return order, distance
  \<close>
  Every index read is in range: \<open>i < length order\<close>, and \<open>i - 1\<close> is read only for
  \<open>i \<noteq> 0\<close>.
\<close>

definition fcfs :: "int list \<Rightarrow> int \<Rightarrow> int list \<times> int" where
  "fcfs requests head =
     (let order = requests;
          distance = (\<Sum>i\<leftarrow>[0..<length order].
                        \<bar>order ! i - (if i = 0 then head else order ! (i - 1))\<bar>)
      in (order, distance))"

subsection \<open>SSTF (lines 15-24)\<close>

text \<open>
  \<^verbatim>\<open>min(pending, key=lambda x: abs(x - curr))\<close> raises \<^verbatim>\<open>ValueError\<close> on an empty
  list; otherwise it walks the list from the front and replaces the best element so far
  only by an element whose key is strictly smaller. \<^verbatim>\<open>pending.remove(v)\<close> deletes the
  first occurrence of \<open>v\<close> and raises \<^verbatim>\<open>ValueError\<close> when there is none.
\<close>

datatype py_error = ValueError

fun py_min_key :: "int list \<Rightarrow> int \<Rightarrow> py_error + int" where
  "py_min_key [] cur = Inl ValueError"
| "py_min_key (x # xs) cur =
     Inr (fold (\<lambda>item best. if \<bar>item - cur\<bar> < \<bar>best - cur\<bar> then item else best) xs x)"

fun py_remove :: "int list \<Rightarrow> int \<Rightarrow> py_error + int list" where
  "py_remove [] v = Inl ValueError"
| "py_remove (x # xs) v =
     (if x = v then Inr xs
      else (case py_remove xs v of Inl e \<Rightarrow> Inl e | Inr ys \<Rightarrow> Inr (x # ys)))"

text \<open>
  The state of the loop is \<open>(pending, order, tot, cur)\<close>. One execution of the loop
  body, lines 19-23:
  \<^verbatim>\<open>
      nearest = min(pending, key=lambda x: abs(x - curr))
      total += abs(nearest - curr)
      order.append(nearest)
      curr = nearest
      pending.remove(nearest)
  \<close>
\<close>

type_synonym sstf_state = "int list \<times> int list \<times> int \<times> int"

fun sstf_body :: "sstf_state \<Rightarrow> py_error + sstf_state" where
  "sstf_body (pending, order, tot, cur) =
     (case py_min_key pending cur of
        Inl e \<Rightarrow> Inl e
      | Inr nearest \<Rightarrow>
          (case py_remove pending nearest of
             Inl e \<Rightarrow> Inl e
           | Inr pending' \<Rightarrow>
               Inr (pending', order @ [nearest], tot + \<bar>nearest - cur\<bar>, nearest)))"

text \<open>The loop \<^verbatim>\<open>while pending:\<close> of line 18; it ends when \<open>pending\<close> is empty.\<close>

function sstf_loop :: "sstf_state \<Rightarrow> py_error + sstf_state" where
  "sstf_loop (pending, order, tot, cur) =
     (if pending = [] then Inr (pending, order, tot, cur)
      else (case sstf_body (pending, order, tot, cur) of
              Inl e \<Rightarrow> Inl e
            | Inr s \<Rightarrow> sstf_loop s))"
  by pat_completeness auto
termination
proof (relation "measure (\<lambda>(pending, order, tot, cur). length pending)")
  show "wf (measure (\<lambda>(pending, order, tot, cur). length pending))"
    by simp
next
  fix pending order :: "int list" and tot cur :: int and s :: sstf_state
  assume body: "sstf_body (pending, order, tot, cur) = Inr s"
  have shorter: "length ys < length xs" if "py_remove xs v = Inr ys" for xs v ys
    using that by (induction xs arbitrary: ys) (auto split: if_splits sum.splits)
  from body obtain nearest where "py_remove pending nearest = Inr (fst s)"
    by (auto split: sum.splits)
  then have "length (fst s) < length pending"
    by (rule shorter)
  then show "(s, pending, order, tot, cur)
      \<in> measure (\<lambda>(pending, order, tot, cur). length pending)"
    by (cases s) simp
qed

definition sstf :: "int list \<Rightarrow> int \<Rightarrow> py_error + (int list \<times> int)" where
  "sstf requests head =
     (case sstf_loop (requests, [], 0, head) of
        Inl e \<Rightarrow> Inl e
      | Inr (pending, order, tot, cur) \<Rightarrow> Inr (order, tot))"

text \<open>
  The loop unrolled at most \<open>k\<close> times: the state after \<open>k\<close> executions of the body, or
  the final state when the loop has ended before.
\<close>

fun sstf_iterate :: "nat \<Rightarrow> sstf_state \<Rightarrow> py_error + sstf_state" where
  "sstf_iterate 0 s = Inr s"
| "sstf_iterate (Suc k) (pending, order, tot, cur) =
     (if pending = [] then Inr (pending, order, tot, cur)
      else (case sstf_body (pending, order, tot, cur) of
              Inl e \<Rightarrow> Inl e
            | Inr s \<Rightarrow> sstf_iterate k s))"

subsection \<open>SCAN (lines 27-57) and C-SCAN (lines 60-90)\<close>

text \<open>
  Both functions run the same loop over each leg,
  \<^verbatim>\<open>
      for r in leg:
          total += abs(curr - r)
          seek_sequence.append(r)
          curr = r
  \<close>
  on the state \<open>(seek_sequence, tot, cur)\<close>.
\<close>

fun sweep :: "int list \<Rightarrow> int list \<times> int \<times> int \<Rightarrow> int list \<times> int \<times> int" where
  "sweep [] (seek_sequence, tot, cur) = (seek_sequence, tot, cur)"
| "sweep (r # rs) (seek_sequence, tot, cur) =
     sweep rs (seek_sequence @ [r], tot + \<bar>cur - r\<bar>, r)"

definition scan :: "int list \<Rightarrow> int \<Rightarrow> string \<Rightarrow> int \<Rightarrow> int list \<times> int" where
  "scan requests head direction disk_size =
     (let left = sort [r \<leftarrow> requests. r < head];
          right = sort [r \<leftarrow> requests. r \<ge> head]
      in if direction = ''left'' then
           (let (seek_sequence, tot, cur) = sweep (rev left) ([], 0, head);
                tot = tot + cur;
                cur = 0;
                (seek_sequence, tot, cur) = sweep right (seek_sequence, tot, cur)
            in (seek_sequence, tot))
         else
           (let (seek_sequence, tot, cur) = sweep right ([], 0, head);
                tot = tot + \<bar>(disk_size - 1) - cur\<bar>;
                cur = disk_size - 1;
                (seek_sequence, tot, cur) = sweep (rev left) (seek_sequence, tot, cur)
            in (seek_sequence, tot)))"

definition cscan :: "int list \<Rightarrow> int \<Rightarrow> string \<Rightarrow> int \<Rightarrow> int list \<times> int" where
  "cscan requests head direction disk_size =
     (let left = sort [r \<leftarrow> requests. r < head];
          right = sort [r \<leftarrow> requests. r \<ge> head]
      in if direction = ''left'' then
           (let (seek_sequence, tot, cur) = sweep (rev left) ([], 0, head);
                tot = tot + cur;
                cur = disk_size - 1;
                (seek_sequence, tot, cur) = sweep (rev right) (seek_sequence, tot, cur)
            in (seek_sequence, tot))
         else
           (let (seek_sequence, tot, cur) = sweep right ([], 0, head);
                tot = tot + \<bar>(disk_size - 1) - cur\<bar>;
                cur = 0;
                (seek_sequence, tot, cur) = sweep left (seek_sequence, tot, cur)
            in (seek_sequence, tot)))"

text \<open>
  The length of a path: the sum of the absolute differences between consecutive
  positions, starting at \<open>start\<close> and passing through \<open>xs\<close> in order. This is the seek
  distance of the specification's glossary, used to state what the totals are.
\<close>

fun path_length :: "int \<Rightarrow> int list \<Rightarrow> int" where
  "path_length start [] = 0"
| "path_length start (x # xs) = \<bar>start - x\<bar> + path_length x xs"

subsection \<open>The four functions on a heap of list objects\<close>

text \<open>
  A Python list is an object on the heap and a variable holds a reference to it, so a
  function could change the list its caller passed. To state what happens to the
  caller's list, the four functions are modelled a second time with the lists in an
  explicit heap: \<open>cells h a\<close> is the content of the list at address \<open>a\<close>, and the
  addresses from \<open>next_free h\<close> on are unused. \<^verbatim>\<open>requests.copy()\<close>, a list
  comprehension and \<^verbatim>\<open>[]\<close> each create a new list; \<^verbatim>\<open>append\<close>, \<^verbatim>\<open>sort\<close> and
  \<^verbatim>\<open>remove\<close> change the list they are called on.
\<close>

type_synonym addr = nat

record heap =
  cells :: "addr \<Rightarrow> int list"
  next_free :: addr

definition new_list :: "int list \<Rightarrow> heap \<Rightarrow> addr \<times> heap" where
  "new_list xs h =
     (next_free h, h\<lparr>cells := (cells h)(next_free h := xs), next_free := Suc (next_free h)\<rparr>)"

definition list_copy :: "addr \<Rightarrow> heap \<Rightarrow> addr \<times> heap" where
  "list_copy a h = new_list (cells h a) h"

definition list_append :: "addr \<Rightarrow> int \<Rightarrow> heap \<Rightarrow> heap" where
  "list_append a v h = h\<lparr>cells := (cells h)(a := cells h a @ [v])\<rparr>"

definition list_sort :: "addr \<Rightarrow> heap \<Rightarrow> heap" where
  "list_sort a h = h\<lparr>cells := (cells h)(a := sort (cells h a))\<rparr>"

definition list_remove :: "addr \<Rightarrow> int \<Rightarrow> heap \<Rightarrow> py_error + heap" where
  "list_remove a v h =
     (case py_remove (cells h a) v of
        Inl e \<Rightarrow> Inl e
      | Inr ys \<Rightarrow> Inr (h\<lparr>cells := (cells h)(a := ys)\<rparr>))"

text \<open>Lines 9-12 on the heap; the order is returned as the address of the copy.\<close>

definition fcfs_heap :: "addr \<Rightarrow> int \<Rightarrow> heap \<Rightarrow> (addr \<times> int) \<times> heap" where
  "fcfs_heap requests head h =
     (let (order, h) = list_copy requests h;
          distance = (\<Sum>i\<leftarrow>[0..<length (cells h order)].
                        \<bar>cells h order ! i
                          - (if i = 0 then head else cells h order ! (i - 1))\<bar>)
      in ((order, distance), h))"

text \<open>
  Lines 18-23 on the heap. The loop reads \<open>pending\<close> from the heap at every test of
  line 18; called with \<open>pending\<close> and \<open>order\<close> the same object it would not end, so
  it is a partial function and \<open>None\<close> stands for not returning.
\<close>

partial_function (option) sstf_loop_heap ::
  "addr \<Rightarrow> addr \<Rightarrow> int \<Rightarrow> int \<Rightarrow> heap \<Rightarrow> (py_error + int \<times> heap) option" where
  "sstf_loop_heap pending order tot cur h =
     (if cells h pending = [] then Some (Inr (tot, h))
      else (case py_min_key (cells h pending) cur of
              Inl e \<Rightarrow> Some (Inl e)
            | Inr nearest \<Rightarrow>
                (case list_remove pending nearest (list_append order nearest h) of
                   Inl e \<Rightarrow> Some (Inl e)
                 | Inr h' \<Rightarrow>
                     sstf_loop_heap pending order (tot + \<bar>nearest - cur\<bar>) nearest h')))"

declare sstf_loop_heap.simps [code]

definition sstf_heap ::
  "addr \<Rightarrow> int \<Rightarrow> heap \<Rightarrow> (py_error + (addr \<times> int) \<times> heap) option" where
  "sstf_heap requests head h =
     (let (pending, h) = list_copy requests h;
          (order, h) = new_list [] h
      in (case sstf_loop_heap pending order 0 head h of
            None \<Rightarrow> None
          | Some (Inl e) \<Rightarrow> Some (Inl e)
          | Some (Inr (tot, h)) \<Rightarrow> Some (Inr ((order, tot), h))))"

text \<open>
  The loop over a leg. The elements of the leg are read when the loop starts; the body
  writes to \<open>seek_sequence\<close> only.
\<close>

fun sweep_heap :: "int list \<Rightarrow> addr \<Rightarrow> int \<times> int \<Rightarrow> heap \<Rightarrow> (int \<times> int) \<times> heap" where
  "sweep_heap [] seek_sequence (tot, cur) h = ((tot, cur), h)"
| "sweep_heap (r # rs) seek_sequence (tot, cur) h =
     sweep_heap rs seek_sequence (tot + \<bar>cur - r\<bar>, r) (list_append seek_sequence r h)"

definition scan_heap ::
  "addr \<Rightarrow> int \<Rightarrow> string \<Rightarrow> int \<Rightarrow> heap \<Rightarrow> (addr \<times> int) \<times> heap" where
  "scan_heap requests head direction disk_size h =
     (let (left, h) = new_list [r \<leftarrow> cells h requests. r < head] h;
          (right, h) = new_list [r \<leftarrow> cells h requests. r \<ge> head] h;
          h = list_sort left h;
          h = list_sort right h;
          (seek_sequence, h) = new_list [] h
      in if direction = ''left'' then
           (let ((tot, cur), h) = sweep_heap (rev (cells h left)) seek_sequence (0, head) h;
                tot = tot + cur;
                cur = 0;
                ((tot, cur), h) = sweep_heap (cells h right) seek_sequence (tot, cur) h
            in ((seek_sequence, tot), h))
         else
           (let ((tot, cur), h) = sweep_heap (cells h right) seek_sequence (0, head) h;
                tot = tot + \<bar>(disk_size - 1) - cur\<bar>;
                cur = disk_size - 1;
                ((tot, cur), h) = sweep_heap (rev (cells h left)) seek_sequence (tot, cur) h
            in ((seek_sequence, tot), h)))"

definition cscan_heap ::
  "addr \<Rightarrow> int \<Rightarrow> string \<Rightarrow> int \<Rightarrow> heap \<Rightarrow> (addr \<times> int) \<times> heap" where
  "cscan_heap requests head direction disk_size h =
     (let (left, h) = new_list [r \<leftarrow> cells h requests. r < head] h;
          (right, h) = new_list [r \<leftarrow> cells h requests. r \<ge> head] h;
          h = list_sort left h;
          h = list_sort right h;
          (seek_sequence, h) = new_list [] h
      in if direction = ''left'' then
           (let ((tot, cur), h) = sweep_heap (rev (cells h left)) seek_sequence (0, head) h;
                tot = tot + cur;
                cur = disk_size - 1;
                ((tot, cur), h) = sweep_heap (rev (cells h right)) seek_sequence (tot, cur) h
            in ((seek_sequence, tot), h))
         else
           (let ((tot, cur), h) = sweep_heap (cells h right) seek_sequence (0, head) h;
                tot = tot + \<bar>(disk_size - 1) - cur\<bar>;
                cur = 0;
                ((tot, cur), h) = sweep_heap (cells h left) seek_sequence (tot, cur) h
            in ((seek_sequence, tot), h)))"

section \<open>Properties\<close>

subsection \<open>The sweep loop and path lengths\<close>

lemma sweep_eq:
  "sweep xs (seek_sequence, tot, cur) =
     (seek_sequence @ xs, tot + path_length cur xs, last (cur # xs))"
  by (induction xs arbitrary: seek_sequence tot cur) simp_all

lemma sum_list_upt_shift:
  "(\<Sum>i\<leftarrow>[0..<Suc n]. f i) = f 0 + (\<Sum>i\<leftarrow>[0..<n]. f (Suc i))" for f :: "nat \<Rightarrow> int"
proof -
  have "[0..<Suc n] = 0 # map Suc [0..<n]"
    by (simp add: upt_conv_Cons map_Suc_upt del: upt_Suc)
  then show ?thesis
    by (simp add: comp_def del: upt_Suc)
qed

lemma fcfs_distance_path:
  "(\<Sum>i\<leftarrow>[0..<length xs]. \<bar>xs ! i - (if i = 0 then head else xs ! (i - 1))\<bar>)
     = path_length head xs"
proof (induction xs arbitrary: head)
  case Nil
  show ?case by simp
next
  case (Cons x xs)
  have "(\<Sum>i\<leftarrow>[0..<length (x # xs)].
           \<bar>(x # xs) ! i - (if i = 0 then head else (x # xs) ! (i - 1))\<bar>)
        = \<bar>x - head\<bar> + (\<Sum>i\<leftarrow>[0..<length xs]. \<bar>xs ! i - (x # xs) ! i\<bar>)"
    using sum_list_upt_shift [of "\<lambda>i. \<bar>(x # xs) ! i - (if i = 0 then head else (x # xs) ! (i - 1))\<bar>" "length xs"]
    by simp
  also have "(\<Sum>i\<leftarrow>[0..<length xs]. \<bar>xs ! i - (x # xs) ! i\<bar>)
        = (\<Sum>i\<leftarrow>[0..<length xs]. \<bar>xs ! i - (if i = 0 then x else xs ! (i - 1))\<bar>)"
    by (rule arg_cong [where f = sum_list], rule map_cong) (auto simp: nth_Cons')
  also have "\<dots> = path_length x xs"
    by (rule Cons.IH)
  finally show ?case
    by (simp add: abs_minus_commute)
qed

lemma path_length_nth:
  "xs \<noteq> [] \<Longrightarrow> path_length head xs =
     \<bar>head - xs ! 0\<bar> + (\<Sum>i\<leftarrow>[1..<length xs]. \<bar>xs ! i - xs ! (i - 1)\<bar>)"
proof (induction xs arbitrary: head)
  case Nil
  then show ?case by simp
next
  case (Cons x xs)
  show ?case
  proof (cases xs)
    case Nil
    then show ?thesis by simp
  next
    case (Cons y ys)
    have "[1..<length (x # xs)] = 1 # map Suc [1..<length xs]"
      using Cons by (simp add: upt_conv_Cons map_Suc_upt del: upt_Suc)
    then have "(\<Sum>i\<leftarrow>[1..<length (x # xs)]. \<bar>(x # xs) ! i - (x # xs) ! (i - 1)\<bar>)
       = \<bar>xs ! 0 - x\<bar> + (\<Sum>i\<leftarrow>[1..<length xs]. \<bar>xs ! i - (x # xs) ! i\<bar>)"
      by (simp add: comp_def del: upt_Suc)
    also have "(\<Sum>i\<leftarrow>[1..<length xs]. \<bar>xs ! i - (x # xs) ! i\<bar>)
       = (\<Sum>i\<leftarrow>[1..<length xs]. \<bar>xs ! i - xs ! (i - 1)\<bar>)"
      by (rule arg_cong [where f = sum_list], rule map_cong) (auto simp: nth_Cons')
    finally show ?thesis
      using Cons.IH [of x] Cons by (simp add: abs_minus_commute)
  qed
qed

text \<open>
  Claim C5. For a non-empty request queue FCFS returns the queue unchanged as the order,
  and as the total the distance from the head to the first request plus the distances
  between consecutive requests; on the reference queue with the head at 50 the total is
  642.
\<close>

theorem fcfs_identity_order:
  "(requests \<noteq> [] \<longrightarrow>
      fcfs requests head =
        (requests,
         \<bar>head - requests ! 0\<bar> +
           (\<Sum>i\<leftarrow>[1..<length requests]. \<bar>requests ! i - requests ! (i - 1)\<bar>)))
   \<and> fcfs [82, 170, 43, 140, 24, 16, 190] 50 = ([82, 170, 43, 140, 24, 16, 190], 642)"
proof
  show "requests \<noteq> [] \<longrightarrow>
      fcfs requests head =
        (requests,
         \<bar>head - requests ! 0\<bar> +
           (\<Sum>i\<leftarrow>[1..<length requests]. \<bar>requests ! i - requests ! (i - 1)\<bar>))"
    using path_length_nth [of requests head]
    by (simp add: fcfs_def fcfs_distance_path)
  show "fcfs [82, 170, 43, 140, 24, 16, 190] 50 = ([82, 170, 43, 140, 24, 16, 190], 642)"
    by (simp add: fcfs_def fcfs_distance_path)
qed

theorem fcfs_identity_order_witness:
  "[5, 3, 9] \<noteq> ([] :: int list) \<and> fcfs [5, 3, 9] 7 = ([5, 3, 9], 10)"
  using fcfs_identity_order [of "[5, 3, 9]" 7] by (simp add: upt_rec)

text \<open>
  Claim C10. SCAN with direction \<^verbatim>\<open>'left'\<close> does not depend on the disk size: any two
  disk sizes give the same order and the same total.
\<close>

theorem scan_left_ignores_disk_size:
  "scan requests head ''left'' d1 = scan requests head ''left'' d2"
  by (simp add: scan_def)

subsection \<open>SCAN and C-SCAN\<close>

lemma scan_left_eq:
  "scan requests head ''left'' disk_size =
     (rev (sort [r \<leftarrow> requests. r < head]) @ sort [r \<leftarrow> requests. r \<ge> head],
      path_length head (rev (sort [r \<leftarrow> requests. r < head]))
        + last (head # rev (sort [r \<leftarrow> requests. r < head]))
        + path_length 0 (sort [r \<leftarrow> requests. r \<ge> head]))"
  by (simp add: scan_def Let_def sweep_eq)

lemma scan_right_eq:
  "direction \<noteq> ''left'' \<Longrightarrow> scan requests head direction disk_size =
     (sort [r \<leftarrow> requests. r \<ge> head] @ rev (sort [r \<leftarrow> requests. r < head]),
      path_length head (sort [r \<leftarrow> requests. r \<ge> head])
        + \<bar>(disk_size - 1) - last (head # sort [r \<leftarrow> requests. r \<ge> head])\<bar>
        + path_length (disk_size - 1) (rev (sort [r \<leftarrow> requests. r < head])))"
  by (simp add: scan_def Let_def sweep_eq)

lemma cscan_left_eq:
  "cscan requests head ''left'' disk_size =
     (rev (sort [r \<leftarrow> requests. r < head]) @ rev (sort [r \<leftarrow> requests. r \<ge> head]),
      path_length head (rev (sort [r \<leftarrow> requests. r < head]))
        + last (head # rev (sort [r \<leftarrow> requests. r < head]))
        + path_length (disk_size - 1) (rev (sort [r \<leftarrow> requests. r \<ge> head])))"
  by (simp add: cscan_def Let_def sweep_eq)

lemma cscan_right_eq:
  "direction \<noteq> ''left'' \<Longrightarrow> cscan requests head direction disk_size =
     (sort [r \<leftarrow> requests. r \<ge> head] @ sort [r \<leftarrow> requests. r < head],
      path_length head (sort [r \<leftarrow> requests. r \<ge> head])
        + \<bar>(disk_size - 1) - last (head # sort [r \<leftarrow> requests. r \<ge> head])\<bar>
        + path_length 0 (sort [r \<leftarrow> requests. r < head]))"
  by (simp add: cscan_def Let_def sweep_eq)

lemma mset_partition_head:
  "mset [r \<leftarrow> requests. r < head] + mset [r \<leftarrow> requests. r \<ge> head] = mset requests"
  for head :: int
  by (induction requests) auto





text \<open>
  Claim C1, as amended. C-SCAN charges the hop to the boundary of the first sweep (the
  position reached for \<^verbatim>\<open>'left'\<close>, the distance to \<open>disk_size - 1\<close> for
  \<^verbatim>\<open>'right'\<close>) and the distances along both legs, the second leg measured from the
  opposite boundary. Lines 73 and 84 move \<^verbatim>\<open>curr\<close> to the opposite boundary without
  adding to the total: the jump between the boundaries is not charged.
\<close>

theorem cscan_jump_not_charged:
  "snd (cscan requests head ''left'' disk_size) =
     path_length head (rev (sort [r \<leftarrow> requests. r < head]))
     + last (head # rev (sort [r \<leftarrow> requests. r < head]))
     + path_length (disk_size - 1) (rev (sort [r \<leftarrow> requests. r \<ge> head]))
   \<and> snd (cscan requests head ''right'' disk_size) =
     path_length head (sort [r \<leftarrow> requests. r \<ge> head])
     + \<bar>(disk_size - 1) - last (head # sort [r \<leftarrow> requests. r \<ge> head])\<bar>
     + path_length 0 (sort [r \<leftarrow> requests. r < head])"
  by (simp add: cscan_left_eq cscan_right_eq)

text \<open>
  Claim C1 as stated fails on the reference queue: with the jump of \<open>disk_size - 1 = 199\<close>
  charged the totals would be 366 and 391; the code returns 167 and 192.
\<close>

theorem cscan_jump_counterexample:
  "snd (cscan [82, 170, 43, 140, 24, 16, 190] 50 ''left'' 200) = 167
   \<and> snd (cscan [82, 170, 43, 140, 24, 16, 190] 50 ''left'' 200) \<noteq>
       path_length 50 [43, 24, 16] + \<bar>16 - 0\<bar> + (200 - 1)
         + path_length (200 - 1) [190, 170, 140, 82]
   \<and> snd (cscan [82, 170, 43, 140, 24, 16, 190] 50 ''right'' 200) = 192
   \<and> snd (cscan [82, 170, 43, 140, 24, 16, 190] 50 ''right'' 200) \<noteq>
       path_length 50 [82, 140, 170, 190] + \<bar>(200 - 1) - 190\<bar> + (200 - 1)
         + path_length 0 [16, 24, 43]"
  by (simp add: cscan_def)

text \<open>
  Claim C2, as amended. On the empty queue FCFS and SSTF return the empty order and the
  total 0. SCAN and C-SCAN return the empty order and, as total, the hop to the boundary
  alone: the head position for \<^verbatim>\<open>'left'\<close> and the distance from the head to
  \<open>disk_size - 1\<close> for any other direction.
\<close>

theorem empty_queue_results:
  "fcfs [] head = ([], 0)
   \<and> sstf [] head = Inr ([], 0)
   \<and> scan [] head direction disk_size =
       ([], if direction = ''left'' then head else \<bar>(disk_size - 1) - head\<bar>)
   \<and> cscan [] head direction disk_size =
       ([], if direction = ''left'' then head else \<bar>(disk_size - 1) - head\<bar>)"
  by (simp add: fcfs_def sstf_def scan_def cscan_def)

text \<open>
  Claim C2 as stated fails for SCAN and C-SCAN: with the head at 50 on a disk of 200
  cylinders the totals on the empty queue are 50 and 149.
\<close>

theorem empty_queue_counterexample:
  "scan [] 50 ''left'' 200 = ([], 50) \<and> scan [] 50 ''left'' 200 \<noteq> ([], 0)
   \<and> scan [] 50 ''right'' 200 = ([], 149)
   \<and> cscan [] 50 ''left'' 200 = ([], 50) \<and> cscan [] 50 ''right'' 200 = ([], 149)"
  by (simp add: scan_def cscan_def)

subsection \<open>SSTF: the choice of the nearest request\<close>

lemma fold_nearest_first:
  fixes cur :: int
  defines "pick \<equiv> (\<lambda>item best. if \<bar>item - cur\<bar> < \<bar>best - cur\<bar> then item else best)"
  shows "\<exists>ys zs. b # xs = ys @ fold pick xs b # zs
           \<and> (\<forall>y\<in>set ys. \<bar>fold pick xs b - cur\<bar> < \<bar>y - cur\<bar>)
           \<and> (\<forall>z\<in>set zs. \<bar>fold pick xs b - cur\<bar> \<le> \<bar>z - cur\<bar>)"
proof (induction xs arbitrary: b)
  case Nil
  have "[b] = [] @ fold pick [] b # []"
    by simp
  then show ?case
    by (metis empty_iff empty_set)
next
  case (Cons x xs)
  show ?case
  proof (cases "\<bar>x - cur\<bar> < \<bar>b - cur\<bar>")
    case True
    from Cons.IH [of x] obtain ys zs where
      split: "x # xs = ys @ fold pick xs x # zs"
      and before: "\<forall>y\<in>set ys. \<bar>fold pick xs x - cur\<bar> < \<bar>y - cur\<bar>"
      and after: "\<forall>z\<in>set zs. \<bar>fold pick xs x - cur\<bar> \<le> \<bar>z - cur\<bar>"
      by blast
    have "x \<in> set (ys @ fold pick xs x # zs)"
      using split by (metis list.set_intros(1))
    then have "\<bar>fold pick xs x - cur\<bar> \<le> \<bar>x - cur\<bar>"
      using before after by auto
    then have "\<bar>fold pick xs x - cur\<bar> < \<bar>b - cur\<bar>"
      using True by simp
    moreover have "fold pick (x # xs) b = fold pick xs x"
      using True by (simp add: pick_def)
    moreover have "b # x # xs = (b # ys) @ fold pick xs x # zs"
      using split by simp
    ultimately show ?thesis
      using before after by (metis set_ConsD)
  next
    case False
    from Cons.IH [of b] obtain ys zs where
      split: "b # xs = ys @ fold pick xs b # zs"
      and before: "\<forall>y\<in>set ys. \<bar>fold pick xs b - cur\<bar> < \<bar>y - cur\<bar>"
      and after: "\<forall>z\<in>set zs. \<bar>fold pick xs b - cur\<bar> \<le> \<bar>z - cur\<bar>"
      by blast
    have same: "fold pick (x # xs) b = fold pick xs b"
      using False by (simp add: pick_def)
    show ?thesis
    proof (cases ys)
      case Nil
      then have "fold pick xs b = b" and "zs = xs"
        using split by (metis append_Nil list.inject)+
      then have "b # x # xs = [] @ fold pick (x # xs) b # (x # zs)"
        and "\<forall>z\<in>set (x # zs). \<bar>fold pick (x # xs) b - cur\<bar> \<le> \<bar>z - cur\<bar>"
        using same False after by auto
      then show ?thesis
        by (metis empty_iff empty_set)
    next
      case (Cons y ys')
      then have "y = b" and rest: "xs = ys' @ fold pick xs b # zs"
        using split by (metis append_Cons list.inject)+
      then have "\<bar>fold pick xs b - cur\<bar> < \<bar>b - cur\<bar>"
        using before Cons by simp
      then have "\<bar>fold pick xs b - cur\<bar> < \<bar>x - cur\<bar>"
        using False by simp
      moreover have "b # x # xs = (b # x # ys') @ fold pick xs b # zs"
        using rest by simp
      ultimately have "b # x # xs = (b # x # ys') @ fold pick (x # xs) b # zs
        \<and> (\<forall>y\<in>set (b # x # ys'). \<bar>fold pick (x # xs) b - cur\<bar> < \<bar>y - cur\<bar>)
        \<and> (\<forall>z\<in>set zs. \<bar>fold pick (x # xs) b - cur\<bar> \<le> \<bar>z - cur\<bar>)"
        using same before after Cons \<open>y = b\<close> by auto
      then show ?thesis
        by blast
    qed
  qed
qed

lemma py_min_key_first:
  assumes "pending \<noteq> []"
  shows "\<exists>nearest ys zs. py_min_key pending cur = Inr nearest
           \<and> pending = ys @ nearest # zs
           \<and> (\<forall>y\<in>set ys. \<bar>nearest - cur\<bar> < \<bar>y - cur\<bar>)
           \<and> (\<forall>z\<in>set zs. \<bar>nearest - cur\<bar> \<le> \<bar>z - cur\<bar>)"
proof -
  from assms obtain x xs where "pending = x # xs"
    by (cases pending) auto
  then show ?thesis
    using fold_nearest_first [of x xs cur] by simp
qed

lemma py_min_key_least:
  assumes "pending \<noteq> []"
  shows "\<exists>nearest. py_min_key pending cur = Inr nearest \<and> nearest \<in> set pending
           \<and> (\<forall>x\<in>set pending. \<bar>nearest - cur\<bar> \<le> \<bar>x - cur\<bar>)"
proof -
  from py_min_key_first [OF assms, of cur] obtain nearest ys zs where
    "py_min_key pending cur = Inr nearest" "pending = ys @ nearest # zs"
    "\<forall>y\<in>set ys. \<bar>nearest - cur\<bar> < \<bar>y - cur\<bar>" "\<forall>z\<in>set zs. \<bar>nearest - cur\<bar> \<le> \<bar>z - cur\<bar>"
    by blast
  then show ?thesis
    by auto
qed

lemma py_remove_member:
  "v \<in> set xs \<Longrightarrow> py_remove xs v = Inr (remove1 v xs)"
  by (induction xs) auto

lemma py_remove_missing:
  "v \<notin> set xs \<Longrightarrow> py_remove xs v = Inl ValueError"
  by (induction xs) auto

lemma subseq_remove1: "subseq (remove1 v xs) xs"
  by (induction xs) auto

text \<open>One execution of the loop body on a non-empty pending list.\<close>

lemma sstf_body_step:
  assumes "pending \<noteq> []"
  shows "\<exists>nearest. py_min_key pending cur = Inr nearest \<and> nearest \<in> set pending
           \<and> py_remove pending nearest = Inr (remove1 nearest pending)
           \<and> sstf_body (pending, order, tot, cur) =
               Inr (remove1 nearest pending, order @ [nearest], tot + \<bar>nearest - cur\<bar>, nearest)"
proof -
  from py_min_key_least [OF assms, of cur] obtain nearest where
    "py_min_key pending cur = Inr nearest" "nearest \<in> set pending"
    by blast
  then show ?thesis
    by (simp add: py_remove_member)
qed

lemma sstf_iterate_invariant:
  "k \<le> length pending \<Longrightarrow>
     \<exists>pending' order' tot' cur'.
        sstf_iterate k (pending, order, tot, cur) = Inr (pending', order', tot', cur')
        \<and> length pending' = length pending - k
        \<and> length order' = length order + k
        \<and> mset order' + mset pending' = mset order + mset pending
        \<and> subseq pending' pending"
proof (induction k arbitrary: pending order tot cur)
  case 0
  show ?case by simp
next
  case (Suc k)
  then have ne: "pending \<noteq> []"
    by auto
  from sstf_body_step [OF ne, of cur order tot] obtain nearest where
    mem: "nearest \<in> set pending"
    and body: "sstf_body (pending, order, tot, cur) =
       Inr (remove1 nearest pending, order @ [nearest], tot + \<bar>nearest - cur\<bar>, nearest)"
    by blast
  have len: "length (remove1 nearest pending) = length pending - 1"
    using mem by (simp add: length_remove1)
  then have "k \<le> length (remove1 nearest pending)"
    using Suc.prems by simp
  from Suc.IH [OF this, of "order @ [nearest]" "tot + \<bar>nearest - cur\<bar>" nearest]
  obtain pending' order' tot' cur' where
    it: "sstf_iterate k (remove1 nearest pending, order @ [nearest], tot + \<bar>nearest - cur\<bar>, nearest)
           = Inr (pending', order', tot', cur')"
    and l1: "length pending' = length (remove1 nearest pending) - k"
    and l2: "length order' = length (order @ [nearest]) + k"
    and ms: "mset order' + mset pending' = mset (order @ [nearest]) + mset (remove1 nearest pending)"
    and sub: "subseq pending' (remove1 nearest pending)"
    by blast
  have "sstf_iterate (Suc k) (pending, order, tot, cur) = Inr (pending', order', tot', cur')"
    using ne body it by simp
  moreover have "length pending' = length pending - Suc k"
    using l1 len by simp
  moreover have "length order' = length order + Suc k"
    using l2 by simp
  moreover have "mset order' + mset pending' = mset order + mset pending"
    using ms mem by simp
  moreover have "subseq pending' pending"
    using sub subseq_remove1 [of nearest pending] by (rule subseq_order.trans)
  ultimately show ?case
    by blast
qed

lemma sstf_iterate_Suc:
  "sstf_iterate (Suc k) s =
     (case sstf_iterate k s of Inl e \<Rightarrow> Inl e | Inr s' \<Rightarrow> sstf_iterate (Suc 0) s')"
proof (induction k arbitrary: s)
  case 0
  show ?case by (cases s) (simp split: sum.splits)
next
  case (Suc k)
  obtain pending order tot cur where s: "s = (pending, order, tot, cur)"
    by (cases s) auto
  show ?case
  proof (cases "pending = []")
    case True
    then show ?thesis using s by simp
  next
    case False
    show ?thesis
    proof (cases "sstf_body (pending, order, tot, cur)")
      case (Inl e)
      then show ?thesis using s False by simp
    next
      case (Inr s')
      have "sstf_iterate (Suc (Suc k)) s = sstf_iterate (Suc k) s'"
        using s False Inr by simp
      also have "\<dots> = (case sstf_iterate k s' of Inl e \<Rightarrow> Inl e
                        | Inr s'' \<Rightarrow> sstf_iterate (Suc 0) s'')"
        by (rule Suc.IH)
      also have "sstf_iterate k s' = sstf_iterate (Suc k) s"
        using s False Inr by simp
      finally show ?thesis .
    qed
  qed
qed

lemma sstf_loop_iterate:
  "length pending \<le> k \<Longrightarrow>
     sstf_loop (pending, order, tot, cur) = sstf_iterate k (pending, order, tot, cur)"
proof (induction k arbitrary: pending order tot cur)
  case 0
  then show ?case by simp
next
  case (Suc k)
  show ?case
  proof (cases "pending = []")
    case True
    then show ?thesis by simp
  next
    case False
    from sstf_body_step [OF False, of cur order tot] obtain nearest where
      mem: "nearest \<in> set pending"
      and body: "sstf_body (pending, order, tot, cur) =
         Inr (remove1 nearest pending, order @ [nearest], tot + \<bar>nearest - cur\<bar>, nearest)"
      by blast
    have "length (remove1 nearest pending) \<le> k"
      using mem Suc.prems by (simp add: length_remove1)
    from Suc.IH [OF this] show ?thesis
      using False body by simp
  qed
qed

subsection \<open>SSTF: the iterations of the loop\<close>

lemma sstf_iterate_extends:
  "sstf_iterate k (pending, order, tot, cur) = Inr (pending', order', tot', cur')
     \<Longrightarrow> \<exists>rest. order' = order @ rest \<and> cur' = last (cur # rest)
           \<and> mset rest + mset pending' = mset pending"
proof (induction k arbitrary: pending order tot cur)
  case 0
  then show ?case by simp
next
  case (Suc k)
  show ?case
  proof (cases "pending = []")
    case True
    then show ?thesis using Suc.prems by simp
  next
    case False
    from sstf_body_step [OF False, of cur order tot] obtain nearest where
      mem: "nearest \<in> set pending"
      and body: "sstf_body (pending, order, tot, cur) =
         Inr (remove1 nearest pending, order @ [nearest], tot + \<bar>nearest - cur\<bar>, nearest)"
      by blast
    then have "sstf_iterate k (remove1 nearest pending, order @ [nearest],
        tot + \<bar>nearest - cur\<bar>, nearest) = Inr (pending', order', tot', cur')"
      using Suc.prems False by simp
    from Suc.IH [OF this] obtain rest where
      "order' = (order @ [nearest]) @ rest" "cur' = last (nearest # rest)"
      "mset rest + mset pending' = mset (remove1 nearest pending)"
      by blast
    then have "order' = order @ (nearest # rest) \<and> cur' = last (cur # nearest # rest)
        \<and> mset (nearest # rest) + mset pending' = mset pending"
      using mem by simp
    then show ?thesis
      by blast
  qed
qed

lemma sstf_iterate_add:
  "sstf_iterate (j + k) s =
     (case sstf_iterate j s of Inl e \<Rightarrow> Inl e | Inr s' \<Rightarrow> sstf_iterate k s')"
proof (induction j arbitrary: s)
  case 0
  show ?case by simp
next
  case (Suc j)
  obtain pending order tot cur where s: "s = (pending, order, tot, cur)"
    by (cases s) auto
  show ?case
  proof (cases "pending = []")
    case True
    have "sstf_iterate k ([], order, tot, cur) = Inr ([], order, tot, cur)"
      by (cases k) simp_all
    then show ?thesis using s True by simp
  next
    case False
    then show ?thesis
      using s Suc.IH by (cases "sstf_body (pending, order, tot, cur)") simp_all
  qed
qed

text \<open>The state of the loop before iteration \<open>k\<close>, and the iteration itself.\<close>

lemma sstf_iteration:
  assumes "k < length requests"
  shows "\<exists>pending order tot cur nearest.
      sstf_iterate k (requests, [], 0, head) = Inr (pending, order, tot, cur)
    \<and> length pending = length requests - k
    \<and> length order = k
    \<and> subseq pending requests
    \<and> py_min_key pending cur = Inr nearest
    \<and> nearest \<in> set pending
    \<and> py_remove pending nearest = Inr (remove1 nearest pending)
    \<and> sstf_iterate (Suc k) (requests, [], 0, head) =
        Inr (remove1 nearest pending, order @ [nearest], tot + \<bar>nearest - cur\<bar>, nearest)"
proof -
  from assms have "k \<le> length requests"
    by simp
  from sstf_iterate_invariant [OF this, of "[]" 0 head]
  obtain pending order tot cur where
    it: "sstf_iterate k (requests, [], 0, head) = Inr (pending, order, tot, cur)"
    and len: "length pending = length requests - k"
    and lo: "length order = k"
    and sub: "subseq pending requests"
    by auto
  from len assms have ne: "pending \<noteq> []"
    by auto
  from sstf_body_step [OF ne, of cur order tot] obtain nearest where
    mk: "py_min_key pending cur = Inr nearest"
    and mem: "nearest \<in> set pending"
    and rm: "py_remove pending nearest = Inr (remove1 nearest pending)"
    and body: "sstf_body (pending, order, tot, cur) =
       Inr (remove1 nearest pending, order @ [nearest], tot + \<bar>nearest - cur\<bar>, nearest)"
    by blast
  have "sstf_iterate (Suc k) (requests, [], 0, head) =
      sstf_iterate (Suc 0) (pending, order, tot, cur)"
    using sstf_iterate_Suc [of k "(requests, [], 0, head)"] it by simp
  also have "\<dots> = Inr (remove1 nearest pending, order @ [nearest], tot + \<bar>nearest - cur\<bar>, nearest)"
    using ne body by simp
  finally show ?thesis
    using it len lo sub mk mem rm by blast
qed

lemma sstf_result:
  "\<exists>order tot cur.
      sstf_iterate (length requests) (requests, [], 0, head) = Inr ([], order, tot, cur)
    \<and> sstf_loop (requests, [], 0, head) = Inr ([], order, tot, cur)
    \<and> sstf requests head = Inr (order, tot)
    \<and> length order = length requests
    \<and> mset order = mset requests"
proof -
  from sstf_iterate_invariant [of "length requests" requests "[]" 0 head]
  obtain pending order tot cur where
    it: "sstf_iterate (length requests) (requests, [], 0, head) = Inr (pending, order, tot, cur)"
    and len: "length pending = 0"
    and lo: "length order = length requests"
    and ms: "mset order + mset pending = mset requests"
    by auto
  from len have "pending = []"
    by simp
  moreover have "sstf_loop (requests, [], 0, head) =
      sstf_iterate (length requests) (requests, [], 0, head)"
    by (rule sstf_loop_iterate) simp
  ultimately show ?thesis
    using it lo ms by (simp add: sstf_def)
qed

text \<open>
  Claim C8. SSTF returns for every request queue, without an error: the loop ends with
  \<open>pending\<close> empty after exactly \<open>length requests\<close> executions of its body, and
  \<open>sstf\<close> returns the order and total of that state. Before each of these executions
  \<open>pending\<close> still holds \<open>length requests - k\<close> elements, so the loop does not end
  earlier, and the execution removes exactly one occurrence, that of the chosen
  element, from the pending multiset.
\<close>

theorem sstf_terminates:
  "\<exists>order tot cur.
      sstf_iterate (length requests) (requests, [], 0, head) = Inr ([], order, tot, cur)
    \<and> sstf_loop (requests, [], 0, head) = Inr ([], order, tot, cur)
    \<and> sstf requests head = Inr (order, tot)
    \<and> length order = length requests
    \<and> (\<forall>k<length requests.
          \<exists>pending order\<^sub>k tot\<^sub>k cur\<^sub>k nearest pending'.
              sstf_iterate k (requests, [], 0, head) = Inr (pending, order\<^sub>k, tot\<^sub>k, cur\<^sub>k)
            \<and> length pending = length requests - k
            \<and> pending \<noteq> []
            \<and> py_min_key pending cur\<^sub>k = Inr nearest
            \<and> py_remove pending nearest = Inr pending'
            \<and> nearest \<in># mset pending
            \<and> mset pending' = mset pending - {#nearest#}
            \<and> sstf_iterate (Suc k) (requests, [], 0, head) =
                Inr (pending', order\<^sub>k @ [nearest], tot\<^sub>k + \<bar>nearest - cur\<^sub>k\<bar>, nearest))"
proof -
  from sstf_result [of requests head] obtain order tot cur where
    res: "sstf_iterate (length requests) (requests, [], 0, head) = Inr ([], order, tot, cur)"
      "sstf_loop (requests, [], 0, head) = Inr ([], order, tot, cur)"
      "sstf requests head = Inr (order, tot)"
      "length order = length requests"
    by blast
  have "\<exists>pending order\<^sub>k tot\<^sub>k cur\<^sub>k nearest pending'.
              sstf_iterate k (requests, [], 0, head) = Inr (pending, order\<^sub>k, tot\<^sub>k, cur\<^sub>k)
            \<and> length pending = length requests - k
            \<and> pending \<noteq> []
            \<and> py_min_key pending cur\<^sub>k = Inr nearest
            \<and> py_remove pending nearest = Inr pending'
            \<and> nearest \<in># mset pending
            \<and> mset pending' = mset pending - {#nearest#}
            \<and> sstf_iterate (Suc k) (requests, [], 0, head) =
                Inr (pending', order\<^sub>k @ [nearest], tot\<^sub>k + \<bar>nearest - cur\<^sub>k\<bar>, nearest)"
    if k: "k < length requests" for k
  proof -
    from sstf_iteration [OF k, of head] obtain pending order\<^sub>k tot\<^sub>k cur\<^sub>k nearest where
      st: "sstf_iterate k (requests, [], 0, head) = Inr (pending, order\<^sub>k, tot\<^sub>k, cur\<^sub>k)"
        "length pending = length requests - k"
        "py_min_key pending cur\<^sub>k = Inr nearest"
        "nearest \<in> set pending"
        "py_remove pending nearest = Inr (remove1 nearest pending)"
        "sstf_iterate (Suc k) (requests, [], 0, head) =
          Inr (remove1 nearest pending, order\<^sub>k @ [nearest], tot\<^sub>k + \<bar>nearest - cur\<^sub>k\<bar>, nearest)"
      by blast
    moreover from st(4) have "pending \<noteq> []"
      by auto
    moreover from st(4) have "nearest \<in># mset pending"
      by simp
    moreover have "mset (remove1 nearest pending) = mset pending - {#nearest#}"
      by simp
    ultimately show ?thesis
      by blast
  qed
  with res show ?thesis
    by blast
qed

theorem sstf_terminates_witness:
  "(\<exists>order tot cur.
      sstf_loop ([60, 40], [], 0, 50) = Inr ([], order, tot, cur)
    \<and> sstf [60, 40] 50 = Inr (order, tot)
    \<and> length order = length [60, 40 :: int])
   \<and> (1::nat) < length [60, 40 :: int]
   \<and> (\<exists>pending order tot cur.
        sstf_iterate 1 ([60, 40], [], 0, 50) = Inr (pending, order, tot, cur)
      \<and> length pending = length [60, 40 :: int] - 1)
   \<and> sstf [60, 40] 50 = Inr ([60, 40], 30)"
proof -
  from sstf_terminates [of "[60, 40]" 50] obtain order tot cur where
    "sstf_loop ([60, 40], [], 0, 50) = Inr ([], order, tot, cur)"
    "sstf [60, 40] 50 = Inr (order, tot)"
    "length order = length [60, 40 :: int]"
    and every: "\<forall>k<length [60, 40 :: int].
          \<exists>pending order\<^sub>k tot\<^sub>k cur\<^sub>k nearest pending'.
              sstf_iterate k ([60, 40], [], 0, 50) = Inr (pending, order\<^sub>k, tot\<^sub>k, cur\<^sub>k)
            \<and> length pending = length [60, 40 :: int] - k
            \<and> pending \<noteq> []
            \<and> py_min_key pending cur\<^sub>k = Inr nearest
            \<and> py_remove pending nearest = Inr pending'
            \<and> nearest \<in># mset pending
            \<and> mset pending' = mset pending - {#nearest#}
            \<and> sstf_iterate (Suc k) ([60, 40], [], 0, 50) =
                Inr (pending', order\<^sub>k @ [nearest], tot\<^sub>k + \<bar>nearest - cur\<^sub>k\<bar>, nearest)"
    by blast
  then have first: "\<exists>order tot cur.
      sstf_loop ([60, 40], [], 0, 50) = Inr ([], order, tot, cur)
    \<and> sstf [60, 40] 50 = Inr (order, tot)
    \<and> length order = length [60, 40 :: int]"
    by blast
  have one: "(1::nat) < length [60, 40 :: int]"
    by simp
  with every have second: "\<exists>pending order tot cur.
        sstf_iterate 1 ([60, 40], [], 0, 50) = Inr (pending, order, tot, cur)
      \<and> length pending = length [60, 40 :: int] - 1"
    by blast
  have "sstf [60, 40] 50 = Inr ([60, 40], 30)"
    by (simp add: sstf_def)
  with first one second show ?thesis
    by blast
qed

text \<open>
  Claim C7. At every iteration \<open>k\<close> of the SSTF loop the element chosen is a pending
  element whose distance to the current position is at most the distance of every
  pending element. It is the element the iteration appends to the order. In terms of the
  order that \<open>sstf\<close> returns: the pending elements at iteration \<open>k\<close> are the elements
  from index \<open>k\<close> on, the current position is the head for \<open>k = 0\<close> and the element
  at index \<open>k - 1\<close> otherwise, and the element at index \<open>k\<close> is at most as far from
  that position as every later element.
\<close>

theorem sstf_greedy_nearest:
  assumes "k < length requests"
  shows "\<exists>pending order tot cur nearest pending' result total.
      sstf_iterate k (requests, [], 0, head) = Inr (pending, order, tot, cur)
    \<and> py_min_key pending cur = Inr nearest
    \<and> nearest \<in> set pending
    \<and> (\<forall>x\<in>set pending. \<bar>nearest - cur\<bar> \<le> \<bar>x - cur\<bar>)
    \<and> sstf_iterate (Suc k) (requests, [], 0, head) =
        Inr (pending', order @ [nearest], tot + \<bar>nearest - cur\<bar>, nearest)
    \<and> sstf requests head = Inr (result, total)
    \<and> take k result = order
    \<and> mset (drop k result) = mset pending
    \<and> cur = (if k = 0 then head else result ! (k - 1))
    \<and> result ! k = nearest
    \<and> (\<forall>j. k \<le> j \<and> j < length result \<longrightarrow> \<bar>result ! k - cur\<bar> \<le> \<bar>result ! j - cur\<bar>)"
proof -
  from sstf_iteration [OF assms, of head] obtain pending order tot cur nearest where
    st: "sstf_iterate k (requests, [], 0, head) = Inr (pending, order, tot, cur)"
    and lo: "length order = k"
    and mk: "py_min_key pending cur = Inr nearest"
    and mem: "nearest \<in> set pending"
    and nx: "sstf_iterate (Suc k) (requests, [], 0, head) =
          Inr (remove1 nearest pending, order @ [nearest], tot + \<bar>nearest - cur\<bar>, nearest)"
    by blast
  from mem have "pending \<noteq> []"
    by auto
  from py_min_key_least [OF this, of cur] mk
  have least: "\<forall>x\<in>set pending. \<bar>nearest - cur\<bar> \<le> \<bar>x - cur\<bar>"
    by simp
  from sstf_iterate_extends [OF st] have pos: "cur = last (head # order)"
    by auto
  from sstf_result [of requests head] obtain result total cur' where
    fin: "sstf_iterate (length requests) (requests, [], 0, head) = Inr ([], result, total, cur')"
    and res: "sstf requests head = Inr (result, total)"
    by blast
  have "sstf_iterate (k + (length requests - k)) (requests, [], 0, head) =
      (case sstf_iterate k (requests, [], 0, head) of
         Inl e \<Rightarrow> Inl e
       | Inr s' \<Rightarrow> sstf_iterate (length requests - k) s')"
    by (rule sstf_iterate_add)
  also have "\<dots> = sstf_iterate (length requests - k) (pending, order, tot, cur)"
    by (simp only: st sum.case)
  also have "k + (length requests - k) = length requests"
    using assms by simp
  finally have "sstf_iterate (length requests - k) (pending, order, tot, cur) =
      Inr ([], result, total, cur')"
    using fin by simp
  from sstf_iterate_extends [OF this] obtain rest where
    result: "result = order @ rest" and rest: "mset rest = mset pending"
    by auto
  have tk: "take k result = order" and dr: "drop k result = rest"
    using result lo by simp_all
  have "sstf_iterate (Suc k + (length requests - Suc k)) (requests, [], 0, head) =
      (case sstf_iterate (Suc k) (requests, [], 0, head) of
         Inl e \<Rightarrow> Inl e
       | Inr s' \<Rightarrow> sstf_iterate (length requests - Suc k) s')"
    by (rule sstf_iterate_add)
  also have "\<dots> = sstf_iterate (length requests - Suc k)
        (remove1 nearest pending, order @ [nearest], tot + \<bar>nearest - cur\<bar>, nearest)"
    by (simp only: nx sum.case)
  also have "Suc k + (length requests - Suc k) = length requests"
    using assms by simp
  finally have "sstf_iterate (length requests - Suc k)
        (remove1 nearest pending, order @ [nearest], tot + \<bar>nearest - cur\<bar>, nearest)
      = Inr ([], result, total, cur')"
    using fin by simp
  from sstf_iterate_extends [OF this] obtain rest' where
    "result = (order @ [nearest]) @ rest'"
    by auto
  then have kth: "result ! k = nearest"
    using lo by (simp add: nth_append)
  have cur: "cur = (if k = 0 then head else result ! (k - 1))"
  proof (cases "k = 0")
    case True
    then show ?thesis using pos lo by simp
  next
    case False
    then have "order \<noteq> []"
      using lo by auto
    then have "cur = order ! (k - 1)"
      using pos lo by (simp add: last_conv_nth)
    also have "\<dots> = result ! (k - 1)"
      using result lo False by (simp add: nth_append)
    finally show ?thesis
      using False by simp
  qed
  have later: "\<bar>result ! k - cur\<bar> \<le> \<bar>result ! j - cur\<bar>"
    if "k \<le> j \<and> j < length result" for j
  proof -
    from that have "result ! j = rest ! (j - k)" and "j - k < length rest"
      using result lo by (auto simp: nth_append)
    then have "result ! j \<in> set rest"
      by (metis nth_mem)
    then have "result ! j \<in> set pending"
      using rest by (metis set_mset_mset)
    then show ?thesis
      using least kth by simp
  qed
  have "mset (drop k result) = mset pending"
    using dr rest by simp
  with st mk mem least nx res tk cur kth later show ?thesis
    by blast
qed

theorem sstf_greedy_nearest_witness:
  "(1::nat) < length [60, 40, 10 :: int]
   \<and> (\<exists>pending order tot cur nearest.
        sstf_iterate 1 ([60, 40, 10], [], 0, 50) = Inr (pending, order, tot, cur)
      \<and> py_min_key pending cur = Inr nearest
      \<and> (\<forall>x\<in>set pending. \<bar>nearest - cur\<bar> \<le> \<bar>x - cur\<bar>))
   \<and> sstf_iterate 1 ([60, 40, 10], [], 0, 50) = Inr ([40, 10], [60], 10, 60)
   \<and> py_min_key [40, 10] 60 = Inr 40
   \<and> sstf [60, 40, 10] 50 = Inr ([60, 40, 10], 60)"
proof -
  have one: "(1::nat) < length [60, 40, 10 :: int]"
    by simp
  from sstf_greedy_nearest [OF this, of 50]
  have "\<exists>pending order tot cur nearest.
        sstf_iterate 1 ([60, 40, 10], [], 0, 50) = Inr (pending, order, tot, cur)
      \<and> py_min_key pending cur = Inr nearest
      \<and> (\<forall>x\<in>set pending. \<bar>nearest - cur\<bar> \<le> \<bar>x - cur\<bar>)"
    by blast
  moreover have "sstf_iterate 1 ([60, 40, 10], [], 0, 50) = Inr ([40, 10], [60], 10, 60)"
    by simp
  moreover have "py_min_key [40, 10] 60 = Inr 40"
    by simp
  moreover have "sstf [60, 40, 10] 50 = Inr ([60, 40, 10], 60)"
    by (simp add: sstf_def)
  ultimately show ?thesis
    using one by blast
qed

text \<open>
  Claim C3, as amended. At every iteration of the SSTF loop the element chosen has the
  least distance to the current position, and among the pending elements at that
  distance it is the one that comes first in \<open>pending\<close>, which keeps the order of
  the request queue: every element before it is strictly farther away. It need not be
  the lowest-valued one.
\<close>

theorem sstf_tie_first_found:
  assumes "k < length requests"
  shows "\<exists>pending order tot cur nearest ys zs.
      sstf_iterate k (requests, [], 0, head) = Inr (pending, order, tot, cur)
    \<and> subseq pending requests
    \<and> py_min_key pending cur = Inr nearest
    \<and> pending = ys @ nearest # zs
    \<and> (\<forall>y\<in>set ys. \<bar>nearest - cur\<bar> < \<bar>y - cur\<bar>)
    \<and> (\<forall>z\<in>set zs. \<bar>nearest - cur\<bar> \<le> \<bar>z - cur\<bar>)"
proof -
  from sstf_iteration [OF assms, of head] obtain pending order tot cur nearest where
    st: "sstf_iterate k (requests, [], 0, head) = Inr (pending, order, tot, cur)"
    and sub: "subseq pending requests"
    and mk: "py_min_key pending cur = Inr nearest"
    and mem: "nearest \<in> set pending"
    by blast
  from mem have "pending \<noteq> []"
    by auto
  from py_min_key_first [OF this, of cur] mk obtain ys zs where
    "pending = ys @ nearest # zs"
    "\<forall>y\<in>set ys. \<bar>nearest - cur\<bar> < \<bar>y - cur\<bar>"
    "\<forall>z\<in>set zs. \<bar>nearest - cur\<bar> \<le> \<bar>z - cur\<bar>"
    by auto
  with st sub mk show ?thesis
    by blast
qed

theorem sstf_tie_first_found_witness:
  "(0::nat) < length [60, 40 :: int]
   \<and> (\<exists>pending order tot cur nearest ys zs.
        sstf_iterate 0 ([60, 40], [], 0, 50) = Inr (pending, order, tot, cur)
      \<and> py_min_key pending cur = Inr nearest
      \<and> pending = ys @ nearest # zs
      \<and> (\<forall>y\<in>set ys. \<bar>nearest - cur\<bar> < \<bar>y - cur\<bar>))
   \<and> py_min_key [60, 40] 50 = Inr 60"
proof -
  have "(0::nat) < length [60, 40 :: int]"
    by simp
  from sstf_tie_first_found [OF this, of 50]
  have "\<exists>pending order tot cur nearest ys zs.
        sstf_iterate 0 ([60, 40], [], 0, 50) = Inr (pending, order, tot, cur)
      \<and> py_min_key pending cur = Inr nearest
      \<and> pending = ys @ nearest # zs
      \<and> (\<forall>y\<in>set ys. \<bar>nearest - cur\<bar> < \<bar>y - cur\<bar>)"
    by blast
  then show ?thesis
    by simp
qed

text \<open>
  Claim C3 as stated fails on the queue 60, 40 with the head at 50: both requests are at
  distance 10, and the code services 60 first, not the lower 40.
\<close>

theorem sstf_tie_counterexample:
  "py_min_key [60, 40] 50 = Inr 60
   \<and> \<bar>40 - 50\<bar> = \<bar>60 - (50::int)\<bar>
   \<and> (40::int) < 60
   \<and> sstf [60, 40] 50 = Inr ([60, 40], 30)"
  by (simp add: sstf_def)

text \<open>
  Claim C4. For every request queue, head position, direction and disk size, the order
  returned by each of FCFS, SSTF, SCAN and C-SCAN has the same multiset of values as the
  request queue: a permutation, with duplicates kept as separate entries.
\<close>

theorem order_is_permutation:
  "mset (fst (fcfs requests head)) = mset requests
   \<and> (\<exists>order tot. sstf requests head = Inr (order, tot) \<and> mset order = mset requests)
   \<and> mset (fst (scan requests head direction disk_size)) = mset requests
   \<and> mset (fst (cscan requests head direction disk_size)) = mset requests"
proof (intro conjI)
  show "mset (fst (fcfs requests head)) = mset requests"
    by (simp add: fcfs_def)
  show "\<exists>order tot. sstf requests head = Inr (order, tot) \<and> mset order = mset requests"
    using sstf_result [of requests head] by blast
  show "mset (fst (scan requests head direction disk_size)) = mset requests"
    using mset_partition_head [where requests = requests and head = head]
    by (cases "direction = ''left''") (simp_all add: scan_left_eq scan_right_eq add.commute)
  show "mset (fst (cscan requests head direction disk_size)) = mset requests"
    using mset_partition_head [where requests = requests and head = head]
    by (cases "direction = ''left''") (simp_all add: cscan_left_eq cscan_right_eq add.commute)
qed

subsection \<open>The caller's list on the heap\<close>

lemma sweep_heap_eq:
  "sweep_heap xs seek_sequence (tot, cur) h =
     ((tot + path_length cur xs, last (cur # xs)),
      h\<lparr>cells := (cells h)(seek_sequence := cells h seek_sequence @ xs)\<rparr>)"
  by (induction xs arbitrary: tot cur h) (simp_all add: list_append_def)

lemma sstf_loop_heap_eq:
  assumes "pending \<noteq> order"
  shows "length (cells h pending) = n \<Longrightarrow>
     \<exists>order' tot' cur'.
        sstf_loop (cells h pending, cells h order, tot, cur) = Inr ([], order', tot', cur')
      \<and> sstf_loop_heap pending order tot cur h =
          Some (Inr (tot', h\<lparr>cells := (cells h)(order := order', pending := [])\<rparr>))"
proof (induction n arbitrary: h tot cur)
  case 0
  then have empty: "cells h pending = []"
    by simp
  then have "(cells h)(order := cells h order, pending := []) = cells h"
    by (auto simp: fun_eq_iff)
  then show ?case
    using empty by (subst sstf_loop_heap.simps) simp
next
  case (Suc n)
  then have ne: "cells h pending \<noteq> []"
    by auto
  from sstf_body_step [OF ne, of cur "cells h order" tot] obtain nearest where
    mk: "py_min_key (cells h pending) cur = Inr nearest"
    and mem: "nearest \<in> set (cells h pending)"
    and rm: "py_remove (cells h pending) nearest = Inr (remove1 nearest (cells h pending))"
    and body: "sstf_body (cells h pending, cells h order, tot, cur) =
       Inr (remove1 nearest (cells h pending), cells h order @ [nearest],
            tot + \<bar>nearest - cur\<bar>, nearest)"
    by blast
  define h' where "h' = h\<lparr>cells := (cells h)(order := cells h order @ [nearest],
      pending := remove1 nearest (cells h pending))\<rparr>"
  have step: "list_remove pending nearest (list_append order nearest h) = Inr h'"
    using assms rm by (simp add: list_remove_def list_append_def h'_def)
  have p': "cells h' pending = remove1 nearest (cells h pending)"
    and o': "cells h' order = cells h order @ [nearest]"
    using assms by (simp_all add: h'_def)
  have "length (cells h' pending) = n"
    using p' mem Suc.prems by (simp add: length_remove1)
  from Suc.IH [OF this, of "tot + \<bar>nearest - cur\<bar>" nearest]
  obtain order' tot' cur' where
    pure: "sstf_loop (cells h' pending, cells h' order, tot + \<bar>nearest - cur\<bar>, nearest)
        = Inr ([], order', tot', cur')"
    and heap: "sstf_loop_heap pending order (tot + \<bar>nearest - cur\<bar>) nearest h' =
        Some (Inr (tot', h'\<lparr>cells := (cells h')(order := order', pending := [])\<rparr>))"
    by blast
  have A: "sstf_loop (cells h pending, cells h order, tot, cur) = Inr ([], order', tot', cur')"
    using ne body pure p' o' by simp
  have B: "h'\<lparr>cells := (cells h')(order := order', pending := [])\<rparr>
      = h\<lparr>cells := (cells h)(order := order', pending := [])\<rparr>"
    by (simp add: h'_def)
  have C: "sstf_loop_heap pending order tot cur h =
      sstf_loop_heap pending order (tot + \<bar>nearest - cur\<bar>) nearest h'"
    using ne mk step by (subst sstf_loop_heap.simps) simp
  have "sstf_loop_heap pending order tot cur h =
      Some (Inr (tot', h\<lparr>cells := (cells h)(order := order', pending := [])\<rparr>))"
    by (simp only: C heap B)
  with A show ?case
    by blast
qed

text \<open>The functions on the heap compute what the functions on values compute.\<close>

lemma fcfs_heap_refines:
  "(case fcfs_heap requests head h of ((order, distance), h') \<Rightarrow> (cells h' order, distance))
     = fcfs (cells h requests) head"
  by (simp add: fcfs_heap_def fcfs_def list_copy_def new_list_def Let_def cong: if_cong)

lemma sstf_heap_refines:
  assumes "requests < next_free h"
  shows "\<exists>order tot h'. sstf_heap requests head h = Some (Inr ((order, tot), h'))
     \<and> sstf (cells h requests) head = Inr (cells h' order, tot)
     \<and> cells h' requests = cells h requests"
proof -
  define h1 where "h1 = snd (new_list [] (snd (list_copy requests h)))"
  define pending where "pending = next_free h"
  define order where "order = Suc (next_free h)"
  have ne: "pending \<noteq> order" and rp: "requests \<noteq> pending" and ro: "requests \<noteq> order"
    using assms by (simp_all add: pending_def order_def)
  have cp: "cells h1 pending = cells h requests" and co: "cells h1 order = []"
    and cr: "cells h1 requests = cells h requests"
    using assms by (simp_all add: h1_def pending_def order_def list_copy_def new_list_def)
  from sstf_loop_heap_eq [OF ne refl, of h1 0 head] obtain order' tot' cur' where
    pure: "sstf_loop (cells h requests, [], 0, head) = Inr ([], order', tot', cur')"
    and heap: "sstf_loop_heap pending order 0 head h1 =
        Some (Inr (tot', h1\<lparr>cells := (cells h1)(order := order', pending := [])\<rparr>))"
    using cp co by auto
  have "sstf_heap requests head h =
      Some (Inr ((order, tot'), h1\<lparr>cells := (cells h1)(order := order', pending := [])\<rparr>))"
    using heap
    by (simp add: sstf_heap_def list_copy_def new_list_def h1_def pending_def order_def)
  moreover have "sstf (cells h requests) head = Inr (order', tot')"
    using pure by (simp add: sstf_def)
  moreover have "cells (h1\<lparr>cells := (cells h1)(order := order', pending := [])\<rparr>) order = order'"
    using ne by simp
  moreover have "cells (h1\<lparr>cells := (cells h1)(order := order', pending := [])\<rparr>) requests
      = cells h requests"
    using rp ro cr by simp
  ultimately show ?thesis
    by simp
qed

lemma scan_heap_refines:
  assumes "requests < next_free h"
  shows "(case scan_heap requests head direction disk_size h of
            ((seek_sequence, tot), h') \<Rightarrow> (cells h' seek_sequence, tot))
          = scan (cells h requests) head direction disk_size"
  using assms
  by (simp add: scan_heap_def scan_def new_list_def list_sort_def Let_def
      sweep_heap_eq sweep_eq)

lemma cscan_heap_refines:
  assumes "requests < next_free h"
  shows "(case cscan_heap requests head direction disk_size h of
            ((seek_sequence, tot), h') \<Rightarrow> (cells h' seek_sequence, tot))
          = cscan (cells h requests) head direction disk_size"
  using assms
  by (simp add: cscan_heap_def cscan_def new_list_def list_sort_def Let_def
      sweep_heap_eq sweep_eq)

text \<open>
  Claim C9. None of the four functions changes the list it is given: for a request list
  that exists on the heap before the call, the list holds the same elements in the same
  order after the call of FCFS, SSTF, SCAN or C-SCAN (and SSTF on the heap returns).
\<close>

theorem requests_not_mutated:
  assumes "requests < next_free h"
  shows "cells (snd (fcfs_heap requests head h)) requests = cells h requests
    \<and> (\<exists>result h'. sstf_heap requests head h = Some (Inr (result, h'))
          \<and> cells h' requests = cells h requests)
    \<and> cells (snd (scan_heap requests head direction disk_size h)) requests = cells h requests
    \<and> cells (snd (cscan_heap requests head direction disk_size h)) requests = cells h requests"
proof (intro conjI)
  show "cells (snd (fcfs_heap requests head h)) requests = cells h requests"
    using assms by (simp add: fcfs_heap_def list_copy_def new_list_def)
  show "\<exists>result h'. sstf_heap requests head h = Some (Inr (result, h'))
          \<and> cells h' requests = cells h requests"
    using sstf_heap_refines [OF assms, of head] by blast
  show "cells (snd (scan_heap requests head direction disk_size h)) requests = cells h requests"
    using assms
    by (simp add: scan_heap_def new_list_def list_sort_def Let_def sweep_heap_eq)
  show "cells (snd (cscan_heap requests head direction disk_size h)) requests = cells h requests"
    using assms
    by (simp add: cscan_heap_def new_list_def list_sort_def Let_def sweep_heap_eq)
qed

theorem requests_not_mutated_witness:
  "(0::nat) < next_free \<lparr>cells = (\<lambda>_. [])(0 := [60, 40]), next_free = 1\<rparr>
   \<and> cells (snd (fcfs_heap 0 50 \<lparr>cells = (\<lambda>_. [])(0 := [60, 40]), next_free = 1\<rparr>)) 0 = [60, 40]
   \<and> (\<exists>result h'. sstf_heap 0 50 \<lparr>cells = (\<lambda>_. [])(0 := [60, 40]), next_free = 1\<rparr>
          = Some (Inr (result, h')) \<and> cells h' 0 = [60, 40])
   \<and> cells (snd (scan_heap 0 50 ''left'' 200
        \<lparr>cells = (\<lambda>_. [])(0 := [60, 40]), next_free = 1\<rparr>)) 0 = [60, 40]
   \<and> cells (snd (cscan_heap 0 50 ''left'' 200
        \<lparr>cells = (\<lambda>_. [])(0 := [60, 40]), next_free = 1\<rparr>)) 0 = [60, 40]"
  using requests_not_mutated [of 0 "\<lparr>cells = (\<lambda>_. [])(0 := [60, 40]), next_free = 1\<rparr>"
      50 "''left''" 200]
  by simp

end
